theory Spec2Isabelle
  imports Complex_Main
begin

section \<open>JavaScript numbers\<close>

text \<open>
  The backtest engine of \<^verbatim>\<open>app.js\<close> computes with JavaScript numbers. A number
  is modelled as a real or one of the three special values of the language. Arithmetic on
  finite values is exact: rounding, overflow to an infinity and the sign of zero are not
  modelled (a zero divisor is \<open>+0\<close>). Everything else follows the language: a division by
  zero gives an infinity or \<open>NaN\<close>, every comparison with \<open>NaN\<close> is false, and \<open>0\<close>,
  \<open>NaN\<close>, \<open>null\<close> and \<open>undefined\<close> are falsy.
\<close>

datatype jsnum = Num real | PosInf | NegInf | NaN

definition signed_inf :: "real \<Rightarrow> jsnum" where
  "signed_inf a = (if 0 < a then PosInf else if a < 0 then NegInf else NaN)"

fun js_neg :: "jsnum \<Rightarrow> jsnum" where
  "js_neg (Num a) = Num (- a)"
| "js_neg PosInf = NegInf"
| "js_neg NegInf = PosInf"
| "js_neg NaN = NaN"

fun js_add :: "jsnum \<Rightarrow> jsnum \<Rightarrow> jsnum" where
  "js_add (Num a) (Num b) = Num (a + b)"
| "js_add NaN _ = NaN"
| "js_add _ NaN = NaN"
| "js_add PosInf NegInf = NaN"
| "js_add NegInf PosInf = NaN"
| "js_add PosInf _ = PosInf"
| "js_add _ PosInf = PosInf"
| "js_add NegInf _ = NegInf"
| "js_add _ NegInf = NegInf"

definition js_sub :: "jsnum \<Rightarrow> jsnum \<Rightarrow> jsnum" where
  "js_sub a b = js_add a (js_neg b)"

fun js_mul :: "jsnum \<Rightarrow> jsnum \<Rightarrow> jsnum" where
  "js_mul (Num a) (Num b) = Num (a * b)"
| "js_mul NaN _ = NaN"
| "js_mul _ NaN = NaN"
| "js_mul (Num a) PosInf = signed_inf a"
| "js_mul (Num a) NegInf = signed_inf (- a)"
| "js_mul PosInf (Num b) = signed_inf b"
| "js_mul NegInf (Num b) = signed_inf (- b)"
| "js_mul PosInf PosInf = PosInf"
| "js_mul NegInf NegInf = PosInf"
| "js_mul PosInf NegInf = NegInf"
| "js_mul NegInf PosInf = NegInf"

fun js_div :: "jsnum \<Rightarrow> jsnum \<Rightarrow> jsnum" where
  "js_div (Num a) (Num b) = (if b = 0 then signed_inf a else Num (a / b))"
| "js_div NaN _ = NaN"
| "js_div _ NaN = NaN"
| "js_div (Num a) PosInf = Num 0"
| "js_div (Num a) NegInf = Num 0"
| "js_div PosInf (Num b) = (if b < 0 then NegInf else PosInf)"
| "js_div NegInf (Num b) = (if b < 0 then PosInf else NegInf)"
| "js_div _ _ = NaN"

text \<open>\<^verbatim>\<open>Math.floor\<close>, \<^verbatim>\<open>Math.min\<close>, \<^verbatim>\<open>Math.sqrt\<close>.\<close>

fun js_floor :: "jsnum \<Rightarrow> jsnum" where
  "js_floor (Num a) = Num (of_int \<lfloor>a\<rfloor>)"
| "js_floor x = x"


text \<open>The comparisons \<^verbatim>\<open><\<close> and \<^verbatim>\<open><=\<close>; \<^verbatim>\<open>a > b\<close> is \<open>js_lt b a\<close>.\<close>

fun js_lt :: "jsnum \<Rightarrow> jsnum \<Rightarrow> bool" where
  "js_lt (Num a) (Num b) = (a < b)"
| "js_lt NaN _ = False"
| "js_lt _ NaN = False"
| "js_lt _ NegInf = False"
| "js_lt PosInf _ = False"
| "js_lt _ _ = True"

fun js_le :: "jsnum \<Rightarrow> jsnum \<Rightarrow> bool" where
  "js_le (Num a) (Num b) = (a \<le> b)"
| "js_le NaN _ = False"
| "js_le _ NaN = False"
| "js_le NegInf _ = True"
| "js_le _ PosInf = True"
| "js_le _ _ = False"

definition js_gt :: "jsnum \<Rightarrow> jsnum \<Rightarrow> bool" where
  "js_gt a b = js_lt b a"

definition js_ge :: "jsnum \<Rightarrow> jsnum \<Rightarrow> bool" where
  "js_ge a b = js_le b a"

definition js_min :: "jsnum \<Rightarrow> jsnum \<Rightarrow> jsnum" where
  "js_min a b = (if a = NaN \<or> b = NaN then NaN else if js_lt b a then b else a)"


text \<open>
  Truthiness of a number, and of a value that may be \<^verbatim>\<open>null\<close> or \<^verbatim>\<open>undefined\<close>
  (\<open>None\<close>); \<^verbatim>\<open>a || b\<close>, and \<^verbatim>\<open>a || d\<close> where \<open>d\<close> is a number.
\<close>

fun truthy :: "jsnum \<Rightarrow> bool" where
  "truthy (Num a) = (a \<noteq> 0)"
| "truthy NaN = False"
| "truthy _ = True"

fun truthy_opt :: "jsnum option \<Rightarrow> bool" where
  "truthy_opt None = False"
| "truthy_opt (Some x) = truthy x"

definition js_or :: "jsnum option \<Rightarrow> jsnum option \<Rightarrow> jsnum option" where
  "js_or a b = (if truthy_opt a then a else b)"

definition js_or_num :: "jsnum option \<Rightarrow> jsnum \<Rightarrow> jsnum" where
  "js_or_num a d = (case a of Some x \<Rightarrow> if truthy x then x else d | None \<Rightarrow> d)"

text \<open>An array read \<^verbatim>\<open>xs[i]\<close>: \<^verbatim>\<open>undefined\<close> out of range.\<close>

definition js_index :: "'a list \<Rightarrow> int \<Rightarrow> 'a option" where
  "js_index xs i = (if 0 \<le> i \<and> i < int (length xs) then Some (xs ! nat i) else None)"

section \<open>MovingAverage\<close>

text \<open>
  \<^verbatim>\<open>function sma(prices, window)\<close>: the loop over \<open>i\<close> with the running sum (\<open>rsum\<close>, the source's \<^verbatim>\<open>sum\<close>) and the
  output array \<open>out\<close>; \<open>None\<close> is the \<^verbatim>\<open>null\<close> pushed while \<open>i < window - 1\<close>. The window is a
  natural number; \<open>i >= window - 1\<close> is written \<open>window \<le> i + 1\<close>.
\<close>

function sma_loop :: "jsnum list \<Rightarrow> nat \<Rightarrow> nat \<Rightarrow> jsnum \<Rightarrow> jsnum option list \<Rightarrow> jsnum option list" where
  "sma_loop prices window i rsum out =
     (if i < length prices then
        (let sum1 = js_add rsum (prices ! i);
             sum2 = (if window \<le> i then js_sub sum1 (prices ! (i - window)) else sum1)
         in sma_loop prices window (i + 1) sum2
              (out @ [if window \<le> i + 1 then Some (js_div sum2 (Num (real window))) else None]))
      else out)"
  by pat_completeness auto
termination
  by (relation "measure (\<lambda>(prices, window, i, rsum, out). length prices - i)") auto

declare sma_loop.simps [simp del]

definition sma :: "jsnum list \<Rightarrow> nat \<Rightarrow> jsnum option list" where
  "sma prices window = sma_loop prices window 0 (Num 0) []"

section \<open>SignalGenerator\<close>

text \<open>
  A signal \<^verbatim>\<open>{type:'buy'|'sell', idx, price, date}\<close>. A label is a string;
  \<^verbatim>\<open>labels[i]\<close> is \<^verbatim>\<open>undefined\<close> (\<open>None\<close>) beyond the end of \<open>labels\<close>.
\<close>

datatype kind = Buy | Sell

type_synonym label = string

record signal =
  s_type :: kind
  s_idx :: nat
  s_price :: jsnum
  s_date :: "label option"

text \<open>
  \<^verbatim>\<open>function generateSmaSignals(labels, prices, fast, slow)\<close>: the loop from \<open>i = 1\<close>.
  The guard \<^verbatim>\<open>fastS[i-1] && slowS[i-1] && fastS[i] && slowS[i]\<close> is a truthiness test:
  it fails on \<^verbatim>\<open>null\<close>, and on an average that is \<open>0\<close> or \<open>NaN\<close>.
\<close>

definition js_get :: "'a option list \<Rightarrow> nat \<Rightarrow> 'a option" where
  "js_get xs i = (if i < length xs then xs ! i else None)"

function signals_loop ::
  "label list \<Rightarrow> jsnum list \<Rightarrow> jsnum option list \<Rightarrow> jsnum option list \<Rightarrow> nat \<Rightarrow> signal list \<Rightarrow> signal list" where
  "signals_loop labels prices fastS slowS i signals =
     (if i < length prices then
        signals_loop labels prices fastS slowS (i + 1)
          (case (js_get fastS (i - 1), js_get slowS (i - 1), js_get fastS i, js_get slowS i) of
             (Some f1, Some s1, Some f, Some s) \<Rightarrow>
               if truthy f1 \<and> truthy s1 \<and> truthy f \<and> truthy s then
                 (if js_le f1 s1 \<and> js_gt f s then
                    signals @ [\<lparr>s_type = Buy, s_idx = i, s_price = prices ! i,
                                s_date = js_index labels (int i)\<rparr>]
                  else if js_ge f1 s1 \<and> js_lt f s then
                    signals @ [\<lparr>s_type = Sell, s_idx = i, s_price = prices ! i,
                                s_date = js_index labels (int i)\<rparr>]
                  else signals)
               else signals
           | _ \<Rightarrow> signals)
      else signals)"
  by pat_completeness auto
termination
  by (relation "measure (\<lambda>(labels, prices, fastS, slowS, i, signals). length prices - i)") auto

declare signals_loop.simps [simp del]

definition generateSmaSignals :: "label list \<Rightarrow> jsnum list \<Rightarrow> nat \<Rightarrow> nat \<Rightarrow> signal list" where
  "generateSmaSignals labels prices fast slow =
     signals_loop labels prices (sma prices fast) (sma prices slow) 1 []"

section \<open>PortfolioSimulator\<close>

text \<open>
  A trade \<^verbatim>\<open>{type, date, price, qty, fee, cash, position}\<close>, and the variables of
  \<^verbatim>\<open>simulatePortfolio\<close>: \<open>cash\<close>, \<open>position\<close>, \<open>lastPrice\<close> (\<^verbatim>\<open>null\<close> at first) and
  the \<open>trades\<close> array.
\<close>

record trade =
  t_type :: kind
  t_date :: "label option"
  t_price :: jsnum
  t_qty :: jsnum
  t_fee :: jsnum
  t_cash :: jsnum
  t_position :: jsnum

record sim_state =
  cash :: jsnum
  position :: jsnum
  lastPrice :: "jsnum option"
  trades :: "trade list"

text \<open>
  One pass of the body of \<^verbatim>\<open>for(const s of signals)\<close>. The \<^verbatim>\<open>continue\<close> of a
  buy with \<open>qty <= 0\<close> leaves the whole state as it is, \<open>lastPrice\<close> included; every other
  path ends with \<^verbatim>\<open>lastPrice = price\<close>.
\<close>

definition sim_step :: "jsnum \<Rightarrow> jsnum \<Rightarrow> sim_state \<Rightarrow> signal \<Rightarrow> sim_state" where
  "sim_step slippagePct feePct st s =
     (let price = js_mul (s_price s)
                    (js_add (Num 1) (if s_type s = Buy then slippagePct else js_neg slippagePct));
          fee = js_mul price feePct
      in if s_type s = Buy \<and> js_gt (cash st) price then
           (let spend = js_min (js_mul (cash st) (Num (1/2))) (cash st);
                qty = js_floor (js_div (js_sub spend fee) price)
            in if js_le qty (Num 0) then st
               else
                 (let cost = js_add (js_mul qty price) fee;
                      cash' = js_sub (cash st) cost;
                      position' = js_add (position st) qty
                  in \<lparr>cash = cash', position = position', lastPrice = Some price,
                      trades = trades st @
                        [\<lparr>t_type = Buy, t_date = s_date s, t_price = price, t_qty = qty,
                          t_fee = fee, t_cash = cash', t_position = position'\<rparr>]\<rparr>))
         else if s_type s = Sell \<and> js_gt (position st) (Num 0) then
           (let qty = position st;
                proceeds = js_sub (js_mul qty price) fee;
                cash' = js_add (cash st) proceeds;
                position' = js_sub (position st) qty
            in \<lparr>cash = cash', position = position', lastPrice = Some price,
                trades = trades st @
                  [\<lparr>t_type = Sell, t_date = s_date s, t_price = price, t_qty = qty,
                    t_fee = fee, t_cash = cash', t_position = position'\<rparr>]\<rparr>)
         else st\<lparr>lastPrice := Some price\<rparr>)"

fun sim_loop :: "jsnum \<Rightarrow> jsnum \<Rightarrow> sim_state \<Rightarrow> signal list \<Rightarrow> sim_state" where
  "sim_loop slippagePct feePct st [] = st"
| "sim_loop slippagePct feePct st (s # signals) =
     sim_loop slippagePct feePct (sim_step slippagePct feePct st s) signals"

record portfolio =
  startingCash :: jsnum
  finalCash :: jsnum
  finalPosition :: jsnum
  finalPrice :: jsnum
  portfolioValue :: jsnum
  tradeLog :: "trade list"

definition init_state :: "jsnum \<Rightarrow> sim_state" where
  "init_state c = \<lparr>cash = c, position = Num 0, lastPrice = None, trades = []\<rparr>"

text \<open>
  \<^verbatim>\<open>function simulatePortfolio(signals, prices, labels, startingCash, slippagePct, feePct)\<close>;
  the defaults of the last three parameters are \<open>100000\<close>, \<open>0.001\<close> and \<open>0.0005\<close>. The
  fields \<open>position\<close> and \<open>trades\<close> of the returned object are \<open>finalPosition\<close> and
  \<open>tradeLog\<close> here.
\<close>

definition simulatePortfolio ::
  "signal list \<Rightarrow> jsnum list \<Rightarrow> label list \<Rightarrow> jsnum \<Rightarrow> jsnum \<Rightarrow> jsnum \<Rightarrow> portfolio" where
  "simulatePortfolio signals prices labels c slippagePct feePct =
     (let st = sim_loop slippagePct feePct (init_state c) signals;
          fp = js_or_num (js_or (js_index prices (int (length prices) - 1)) (lastPrice st)) (Num 0)
      in \<lparr>startingCash = c, finalCash = cash st, finalPosition = position st, finalPrice = fp,
          portfolioValue = js_add (cash st) (js_mul (position st) fp), tradeLog = trades st\<rparr>)"

section \<open>EquityReconstructor\<close>

record equity_point =
  e_date :: label
  e_total :: jsnum

record eq_state =
  eq_cash :: jsnum
  eq_position :: jsnum
  tradeIndex :: nat

text \<open>
  The inner \<^verbatim>\<open>while(tradeIndex < trades.length && trades[tradeIndex].date === date)\<close>
  of \<^verbatim>\<open>computeEquityCurve\<close>: both branches on the trade's type copy its recorded cash and
  position.
\<close>

function apply_trades :: "trade list \<Rightarrow> label \<Rightarrow> eq_state \<Rightarrow> eq_state" where
  "apply_trades trs date st =
     (if tradeIndex st < length trs \<and> t_date (trs ! tradeIndex st) = Some date then
        (let t = trs ! tradeIndex st
         in apply_trades trs date
              (case t_type t of
                 Buy \<Rightarrow> \<lparr>eq_cash = t_cash t, eq_position = t_position t,
                          tradeIndex = tradeIndex st + 1\<rparr>
               | Sell \<Rightarrow> \<lparr>eq_cash = t_cash t, eq_position = t_position t,
                           tradeIndex = tradeIndex st + 1\<rparr>))
      else st)"
  by pat_completeness auto
termination
  by (relation "measure (\<lambda>(trs, date, st). length trs - tradeIndex st)")
     (auto split: kind.splits)

declare apply_trades.simps [simp del]

text \<open>The price \<^verbatim>\<open>prices[i] || prices[prices.length-1] || 0\<close> that marks point \<open>i\<close>.\<close>

definition mark_price :: "jsnum list \<Rightarrow> nat \<Rightarrow> jsnum" where
  "mark_price prices i =
     js_or_num (js_or (js_index prices (int i)) (js_index prices (int (length prices) - 1))) (Num 0)"

function equity_loop ::
  "trade list \<Rightarrow> jsnum list \<Rightarrow> label list \<Rightarrow> nat \<Rightarrow> eq_state \<Rightarrow> equity_point list \<Rightarrow> equity_point list" where
  "equity_loop trs prices labels i st equity =
     (if i < length labels then
        (let date = labels ! i;
             st' = apply_trades trs date st;
             price = mark_price prices i;
             total = js_add (eq_cash st') (js_mul (eq_position st') price)
         in equity_loop trs prices labels (i + 1) st'
              (equity @ [\<lparr>e_date = date, e_total = total\<rparr>]))
      else equity)"
  by pat_completeness auto
termination
  by (relation "measure (\<lambda>(trs, prices, labels, i, st, equity). length labels - i)") auto

declare equity_loop.simps [simp del]

definition computeEquityCurve ::
  "trade list \<Rightarrow> jsnum list \<Rightarrow> label list \<Rightarrow> jsnum \<Rightarrow> equity_point list" where
  "computeEquityCurve trs prices labels c =
     equity_loop trs prices labels 0 \<lparr>eq_cash = c, eq_position = Num 0, tradeIndex = 0\<rparr> []"

section \<open>PerformanceAnalyzer\<close>






section \<open>Specification-side definitions\<close>

text \<open>
  The sum of the \<open>w\<close> prices that end just before index \<open>n\<close> (fewer when \<open>n < w\<close>), and
  the entry a moving average over finite prices has at index \<open>k\<close>.
\<close>

definition window_sum :: "real list \<Rightarrow> nat \<Rightarrow> nat \<Rightarrow> real" where
  "window_sum ps w n = (\<Sum>j = n - w..<n. ps ! j)"

definition sma_at :: "real list \<Rightarrow> nat \<Rightarrow> nat \<Rightarrow> jsnum option" where
  "sma_at ps w k = (if w \<le> k + 1 then Some (Num (window_sum ps w (k + 1) / real w)) else None)"

text \<open>
  The account of the simulator is in order when cash is a finite number that is not negative
  and the position is a natural number; a signal is priced when its price is finite and
  positive.
\<close>

definition account_ok :: "sim_state \<Rightarrow> bool" where
  "account_ok st = (\<exists>c n. cash st = Num c \<and> 0 \<le> c \<and> position st = Num (real (n::nat)))"

definition priced :: "signal \<Rightarrow> bool" where
  "priced s = (\<exists>p. s_price s = Num p \<and> 0 < p)"

text \<open>
  The cursor of the equity reconstructor, in closed form. \<open>run_length trs date k\<close> counts the
  consecutive trades from index \<open>k\<close> on whose date is \<open>date\<close>; \<open>consumed trs labels n\<close> is
  the number of trades taken once the first \<open>n\<close> labels are done; \<open>state_at trs c k\<close> is the
  account after \<open>k\<close> trades are taken, which is what the last of them recorded;
  \<open>state_after\<close> runs the source's inner loop over the first \<open>n\<close> labels; \<open>point_at\<close> is
  the equity point these give at index \<open>i\<close>.
\<close>

definition run_length :: "trade list \<Rightarrow> label \<Rightarrow> nat \<Rightarrow> nat" where
  "run_length trs date k = length (takeWhile (\<lambda>t. t_date t = Some date) (drop k trs))"

fun consumed :: "trade list \<Rightarrow> label list \<Rightarrow> nat \<Rightarrow> nat" where
  "consumed trs labels 0 = 0"
| "consumed trs labels (Suc n) =
     consumed trs labels n + run_length trs (labels ! n) (consumed trs labels n)"

definition state_at :: "trade list \<Rightarrow> jsnum \<Rightarrow> nat \<Rightarrow> eq_state" where
  "state_at trs c k =
     (if k = 0 then \<lparr>eq_cash = c, eq_position = Num 0, tradeIndex = 0\<rparr>
      else \<lparr>eq_cash = t_cash (trs ! (k - 1)), eq_position = t_position (trs ! (k - 1)),
            tradeIndex = k\<rparr>)"

definition state_after :: "trade list \<Rightarrow> label list \<Rightarrow> jsnum \<Rightarrow> nat \<Rightarrow> eq_state" where
  "state_after trs labels c n =
     foldl (\<lambda>st date. apply_trades trs date st)
       \<lparr>eq_cash = c, eq_position = Num 0, tradeIndex = 0\<rparr> (take n labels)"

definition point_at :: "trade list \<Rightarrow> jsnum list \<Rightarrow> label list \<Rightarrow> jsnum \<Rightarrow> nat \<Rightarrow> equity_point" where
  "point_at trs prices labels c i =
     (let st = state_at trs c (consumed trs labels (Suc i))
      in \<lparr>e_date = labels ! i,
          e_total = js_add (eq_cash st) (js_mul (eq_position st) (mark_price prices i))\<rparr>)"

text \<open>
  The equity curve as the specification words it: at each timestamp, every trade of the log
  whose date equals that timestamp is applied, in log order, before the point is valued.
\<close>

definition apply_matching :: "trade list \<Rightarrow> label \<Rightarrow> jsnum \<times> jsnum \<Rightarrow> jsnum \<times> jsnum" where
  "apply_matching trs date acct =
     foldl (\<lambda>a t. (t_cash t, t_position t)) acct (filter (\<lambda>t. t_date t = Some date) trs)"

fun accounts_by_timestamp :: "trade list \<Rightarrow> label list \<Rightarrow> jsnum \<times> jsnum \<Rightarrow> (jsnum \<times> jsnum) list" where
  "accounts_by_timestamp trs [] acct = []"
| "accounts_by_timestamp trs (date # labels) acct =
     apply_matching trs date acct # accounts_by_timestamp trs labels (apply_matching trs date acct)"

definition equity_by_timestamp ::
  "trade list \<Rightarrow> jsnum list \<Rightarrow> label list \<Rightarrow> jsnum \<Rightarrow> equity_point list" where
  "equity_by_timestamp trs prices labels c =
     map (\<lambda>i. \<lparr>e_date = labels ! i,
               e_total = js_add (fst (accounts_by_timestamp trs labels (c, Num 0) ! i))
                           (js_mul (snd (accounts_by_timestamp trs labels (c, Num 0) ! i))
                              (mark_price prices i))\<rparr>)
       [0..<length labels]"

text \<open>
  A trade log follows the labels when the labels are distinct and the log is, in label
  order, the trades dated with each label (none, one or several per label).
\<close>

definition log_follows_labels :: "trade list \<Rightarrow> label list \<Rightarrow> bool" where
  "log_follows_labels trs labels =
     (distinct labels \<and>
      (\<exists>groups. trs = concat groups \<and> length groups = length labels \<and>
         (\<forall>i<length labels. \<forall>t\<in>set (groups ! i). t_date t = Some (labels ! i))))"

text \<open>
  The crossover rule as the specification words it: at index \<open>i\<close>, with both averages
  defined at \<open>i - 1\<close> and \<open>i\<close>, a Buy when the fast average goes from at-or-below to
  strictly above the slow one, a Sell when it goes from at-or-above to strictly below; and
  the signals this rule gives over the indices \<open>1 .. N - 1\<close>. \<open>nonzero_opt\<close> holds of an
  entry that is undefined or truthy.
\<close>

definition crossing :: "jsnum option list \<Rightarrow> jsnum option list \<Rightarrow> nat \<Rightarrow> kind option" where
  "crossing fastS slowS i =
     (case (js_get fastS (i - 1), js_get slowS (i - 1), js_get fastS i, js_get slowS i) of
        (Some f1, Some s1, Some f, Some s) \<Rightarrow>
          if js_le f1 s1 \<and> js_gt f s then Some Buy
          else if js_ge f1 s1 \<and> js_lt f s then Some Sell
          else None
      | _ \<Rightarrow> None)"

definition crossing_signals :: "label list \<Rightarrow> jsnum list \<Rightarrow> nat \<Rightarrow> nat \<Rightarrow> signal list" where
  "crossing_signals labels prices fast slow =
     concat (map (\<lambda>i. case crossing (sma prices fast) (sma prices slow) i of
                        Some k \<Rightarrow> [\<lparr>s_type = k, s_idx = i, s_price = prices ! i,
                                     s_date = js_index labels (int i)\<rparr>]
                      | None \<Rightarrow> [])
               [1..<length prices])"

definition nonzero_opt :: "jsnum option \<Rightarrow> bool" where
  "nonzero_opt a = (case a of None \<Rightarrow> True | Some x \<Rightarrow> truthy x)"






section \<open>PortfolioSimulator: at most one trade per signal\<close>

lemma sim_step_trades:
  "trades (sim_step slippagePct feePct st s) = trades st \<or>
   (\<exists>t. trades (sim_step slippagePct feePct st s) = trades st @ [t])"
  by (simp add: sim_step_def Let_def)

lemma sim_step_trades_length:
  "length (trades (sim_step slippagePct feePct st s)) \<le> Suc (length (trades st))"
  using sim_step_trades [of slippagePct feePct st s] by auto

lemma sim_loop_trades_length:
  "length (trades (sim_loop slippagePct feePct st signals)) \<le> length (trades st) + length signals"
proof (induction signals arbitrary: st)
  case Nil
  show ?case by simp
next
  case (Cons s signals)
  have "length (trades (sim_loop slippagePct feePct (sim_step slippagePct feePct st s) signals))
          \<le> length (trades (sim_step slippagePct feePct st s)) + length signals"
    by (rule Cons.IH)
  also have "\<dots> \<le> Suc (length (trades st)) + length signals"
    using sim_step_trades_length [of slippagePct feePct st s] by simp
  finally show ?case by simp
qed

text \<open>
  C9: the trade log of \<open>simulatePortfolio\<close> is never longer than the list of signals: each
  pass of the loop appends at most one trade.
\<close>

theorem trades_le_signals:
  "length (tradeLog (simulatePortfolio signals prices labels c slippagePct feePct)) \<le> length signals"
  using sim_loop_trades_length [of slippagePct feePct "init_state c" signals]
  by (simp add: simulatePortfolio_def Let_def init_state_def)

section \<open>MovingAverage: the running sum is the window sum\<close>

lemma window_sum_step:
  "window_sum ps w (Suc i) = (if w \<le> i then window_sum ps w i + ps ! i - ps ! (i - w)
                              else window_sum ps w i + ps ! i)"
proof (cases "w \<le> i")
  case True
  have low: "Suc i - w = Suc (i - w)" using True by simp
  have "(\<Sum>j = i - w..<Suc i. ps ! j) = ps ! (i - w) + (\<Sum>j = Suc (i - w)..<Suc i. ps ! j)"
    by (rule sum.atLeast_Suc_lessThan) simp
  moreover have "(\<Sum>j = i - w..<Suc i. ps ! j) = (\<Sum>j = i - w..<i. ps ! j) + ps ! i"
    by (rule sum.atLeastLessThan_Suc) simp
  ultimately have "(\<Sum>j = Suc (i - w)..<Suc i. ps ! j)
                     = (\<Sum>j = i - w..<i. ps ! j) + ps ! i - ps ! (i - w)"
    by linarith
  then show ?thesis using True unfolding window_sum_def low by simp
next
  case False
  then show ?thesis by (simp add: window_sum_def)
qed

lemma sma_loop_finite:
  assumes "0 < w"
  shows "i \<le> length ps \<Longrightarrow>
         sma_loop (map Num ps) w i (Num (window_sum ps w i)) out
           = out @ map (sma_at ps w) [i..<length ps]"
proof (induction "length ps - i" arbitrary: i out)
  case 0
  then have "i = length ps" by simp
  then show ?case by (simp add: sma_loop.simps)
next
  case (Suc n)
  then have lt: "i < length ps" by simp
  have IH: "sma_loop (map Num ps) w (Suc i) (Num (window_sum ps w (Suc i))) (out @ [sma_at ps w i])
              = (out @ [sma_at ps w i]) @ map (sma_at ps w) [Suc i..<length ps]"
    using Suc.hyps(1) [of "Suc i" "out @ [sma_at ps w i]"] Suc.hyps(2) lt by simp
  have step: "sma_loop (map Num ps) w i (Num (window_sum ps w i)) out
              = sma_loop (map Num ps) w (Suc i) (Num (window_sum ps w (Suc i))) (out @ [sma_at ps w i])"
    using lt assms
    by (subst sma_loop.simps)
       (simp add: Let_def js_sub_def window_sum_step sma_at_def)
  show ?case using IH step lt by (simp add: upt_conv_Cons)
qed

lemma sma_finite: "0 < w \<Longrightarrow> sma (map Num ps) w = map (sma_at ps w) [0..<length ps]"
  using sma_loop_finite [of w 0 ps "[]"] by (simp add: sma_def window_sum_def)





section \<open>PortfolioSimulator: the Buy branch\<close>





section \<open>PortfolioSimulator: the account at positive prices\<close>

text \<open>
  With positive finite prices and rates between \<open>0\<close> and \<open>1\<close>, a recorded Buy lowers cash
  strictly and leaves at least half of it, a recorded Sell empties the position and does not
  lower cash, and the account stays in order through the whole loop.
\<close>

lemma buy_quantity_bounds:
  fixes c P f :: real
  assumes "0 < P" and "\<not> \<lfloor>(c / 2 - P * f) / P\<rfloor> \<le> 0"
  shows "1 \<le> \<lfloor>(c / 2 - P * f) / P\<rfloor>"
    and "real_of_int \<lfloor>(c / 2 - P * f) / P\<rfloor> * P + P * f \<le> c / 2"
proof -
  let ?q = "\<lfloor>(c / 2 - P * f) / P\<rfloor>"
  show "1 \<le> ?q" using assms(2) by simp
  have "real_of_int ?q \<le> (c / 2 - P * f) / P" by (rule of_int_floor_le)
  then have "real_of_int ?q * P \<le> (c / 2 - P * f) / P * P"
    using assms(1) by (intro mult_right_mono) simp_all
  then have "real_of_int ?q * P \<le> c / 2 - P * f"
    using assms(1) by simp
  then show "real_of_int ?q * P + P * f \<le> c / 2" by simp
qed

lemma sim_step_buy_positive:
  assumes buy: "s_type s = Buy"
    and fin: "cash st = Num c" "s_price s = Num p" "position st = Num (real n)"
    and pos: "0 < p" "0 \<le> sg" "0 \<le> f" "0 \<le> c"
  shows "sim_step (Num sg) (Num f) st s = st \<or>
         sim_step (Num sg) (Num f) st s = st\<lparr>lastPrice := Some (Num (p * (1 + sg)))\<rparr> \<or>
         (\<exists>q c'. 0 < q \<and> c / 2 \<le> c' \<and> c' < c \<and>
            cash (sim_step (Num sg) (Num f) st s) = Num c' \<and>
            position (sim_step (Num sg) (Num f) st s) = Num (real (n + q)) \<and>
            length (trades (sim_step (Num sg) (Num f) st s)) = Suc (length (trades st)))"
proof -
  define P where "P = p * (1 + sg)"
  have P: "0 < P" using pos by (simp add: P_def)
  let ?q = "\<lfloor>(c / 2 - P * f) / P\<rfloor>"
  have m: "min (c / 2) c = c / 2" using pos(4) by simp
  show ?thesis
  proof (cases "P < c \<and> \<not> ?q \<le> 0")
    case False
    then show ?thesis
      using buy P
      by (auto simp: sim_step_def Let_def fin js_gt_def js_min_def js_sub_def P_def [symmetric])
  next
    case True
    then have q1: "1 \<le> ?q" and cost: "real_of_int ?q * P + P * f \<le> c / 2"
      using buy_quantity_bounds [OF P, of c f] by simp_all
    define q where "q = nat ?q"
    have q: "real_of_int ?q = real q" "0 < q" using q1 by (simp_all add: q_def)
    have "P \<le> real q * P" using q(2) P by simp
    then have low: "0 < real q * P + P * f" using P pos(3)
      by (smt (verit) mult_nonneg_nonneg)
    have "sim_step (Num sg) (Num f) st s
            = \<lparr>cash = Num (c - (real q * P + P * f)), position = Num (real n + real q),
               lastPrice = Some (Num P),
               trades = trades st @
                 [\<lparr>t_type = Buy, t_date = s_date s, t_price = Num P, t_qty = Num (real q),
                   t_fee = Num (P * f), t_cash = Num (c - (real q * P + P * f)),
                   t_position = Num (real n + real q)\<rparr>]\<rparr>"
      using buy True P q
      by (simp add: sim_step_def Let_def fin js_gt_def js_min_def js_sub_def P_def [symmetric])
    then show ?thesis using cost low q by auto
  qed
qed

lemma sim_step_sell_positive:
  assumes sell: "s_type s = Sell"
    and fin: "cash st = Num c" "s_price s = Num p" "position st = Num (real n)"
    and pos: "0 \<le> p" "0 \<le> sg" "sg \<le> 1" "0 \<le> f" "f \<le> 1" "0 \<le> c"
  shows "sim_step (Num sg) (Num f) st s = st\<lparr>lastPrice := Some (Num (p * (1 - sg)))\<rparr> \<or>
         (\<exists>c'. c \<le> c' \<and>
            cash (sim_step (Num sg) (Num f) st s) = Num c' \<and>
            position (sim_step (Num sg) (Num f) st s) = Num 0 \<and>
            length (trades (sim_step (Num sg) (Num f) st s)) = Suc (length (trades st)))"
proof (cases "0 < n")
  case False
  then show ?thesis using sell by (simp add: sim_step_def Let_def fin js_gt_def)
next
  case True
  define P where "P = p * (1 - sg)"
  have P: "0 \<le> P" using pos by (simp add: P_def)
  have "f \<le> real n" using True pos(5) by linarith
  then have "P * f \<le> real n * P" using P by (simp add: mult.commute mult_left_mono)
  then have "c \<le> c + (real n * P - P * f)" by simp
  moreover have "sim_step (Num sg) (Num f) st s
            = \<lparr>cash = Num (c + (real n * P - P * f)), position = Num 0,
               lastPrice = Some (Num P),
               trades = trades st @
                 [\<lparr>t_type = Sell, t_date = s_date s, t_price = Num P, t_qty = Num (real n),
                   t_fee = Num (P * f), t_cash = Num (c + (real n * P - P * f)),
                   t_position = Num 0\<rparr>]\<rparr>"
      using sell True
      by (simp add: sim_step_def Let_def fin js_gt_def js_sub_def P_def [symmetric])
  ultimately show ?thesis by auto
qed

lemma sim_step_account_ok:
  assumes "account_ok st" and "priced s"
    and "0 \<le> sg" "sg \<le> 1" "0 \<le> f" "f \<le> 1"
  shows "account_ok (sim_step (Num sg) (Num f) st s)"
proof -
  obtain c n where st: "cash st = Num c" "0 \<le> c" "position st = Num (real n)"
    using assms(1) by (auto simp: account_ok_def)
  obtain p where p: "s_price s = Num p" "0 < p"
    using assms(2) by (auto simp: priced_def)
  show ?thesis
  proof (cases "s_type s")
    case Buy
    from sim_step_buy_positive [OF Buy st(1) p(1) st(3) p(2) assms(3,5) st(2)]
    consider "sim_step (Num sg) (Num f) st s = st"
      | "sim_step (Num sg) (Num f) st s = st\<lparr>lastPrice := Some (Num (p * (1 + sg)))\<rparr>"
      | q c' where "c / 2 \<le> c'" "cash (sim_step (Num sg) (Num f) st s) = Num c'"
          "position (sim_step (Num sg) (Num f) st s) = Num (real (n + q))"
      by blast
    then show ?thesis
    proof cases
      case 1
      then show ?thesis using assms(1) by simp
    next
      case 2
      then show ?thesis using st by (auto simp: account_ok_def)
    next
      case 3
      have "0 \<le> c'" using 3(1) st(2) by simp
      then show ?thesis using 3(2,3) unfolding account_ok_def by blast
    qed
  next
    case Sell
    have "0 \<le> p" using p(2) by simp
    from sim_step_sell_positive [OF Sell st(1) p(1) st(3) this assms(3-6) st(2)]
    show ?thesis using st
      by (auto simp: account_ok_def)
  qed
qed

lemma sim_loop_account_ok:
  assumes "0 \<le> sg" "sg \<le> 1" "0 \<le> f" "f \<le> 1"
  shows "account_ok st \<Longrightarrow> \<forall>s\<in>set signals. priced s \<Longrightarrow>
         account_ok (sim_loop (Num sg) (Num f) st signals)"
proof (induction signals arbitrary: st)
  case Nil
  then show ?case by simp
next
  case (Cons s signals)
  have "account_ok (sim_step (Num sg) (Num f) st s)"
    using Cons.prems assms by (intro sim_step_account_ok) simp_all
  then show ?case using Cons by simp
qed

section \<open>EquityReconstructor: one cursor over the trade log\<close>

lemma tradeIndex_state_at [simp]: "tradeIndex (state_at trs c k) = k"
  by (simp add: state_at_def)

lemma run_length_step:
  "k < length trs \<Longrightarrow> t_date (trs ! k) = Some date \<Longrightarrow>
     run_length trs date k = Suc (run_length trs date (Suc k))"
  by (simp add: run_length_def Cons_nth_drop_Suc [symmetric])

lemma run_length_stop:
  "\<not> (k < length trs \<and> t_date (trs ! k) = Some date) \<Longrightarrow> run_length trs date k = 0"
  by (cases "k < length trs") (simp_all add: run_length_def Cons_nth_drop_Suc [symmetric])

lemma run_length_bound: "k + run_length trs date k \<le> max k (length trs)"
proof -
  have "run_length trs date k \<le> length (drop k trs)"
    unfolding run_length_def by (rule length_takeWhile_le)
  then show ?thesis by simp
qed

lemma apply_trades_step:
  assumes "tradeIndex st < length trs" and "t_date (trs ! tradeIndex st) = Some date"
  shows "apply_trades trs date st
           = apply_trades trs date
               \<lparr>eq_cash = t_cash (trs ! tradeIndex st), eq_position = t_position (trs ! tradeIndex st),
                tradeIndex = Suc (tradeIndex st)\<rparr>"
  using assms by (subst apply_trades.simps) (simp add: Let_def split: kind.splits)

lemma apply_trades_stop:
  assumes "\<not> (tradeIndex st < length trs \<and> t_date (trs ! tradeIndex st) = Some date)"
  shows "apply_trades trs date st = st"
  using assms by (subst apply_trades.simps) auto

lemma apply_trades_state_at:
  "apply_trades trs date (state_at trs c k) = state_at trs c (k + run_length trs date k)"
proof (induction "length trs - k" arbitrary: k)
  case 0
  then have "run_length trs date k = 0" by (intro run_length_stop) simp
  moreover have "apply_trades trs date (state_at trs c k) = state_at trs c k"
    using 0 by (intro apply_trades_stop) simp
  ultimately show ?case by simp
next
  case (Suc n)
  show ?case
  proof (cases "t_date (trs ! k) = Some date")
    case False
    then have "run_length trs date k = 0" by (intro run_length_stop) simp
    moreover have "apply_trades trs date (state_at trs c k) = state_at trs c k"
      using False by (intro apply_trades_stop) simp
    ultimately show ?thesis by simp
  next
    case True
    have k: "k < length trs" using Suc.hyps(2) by simp
    have "apply_trades trs date (state_at trs c k)
            = apply_trades trs date
                \<lparr>eq_cash = t_cash (trs ! k), eq_position = t_position (trs ! k),
                 tradeIndex = Suc k\<rparr>"
      using True k apply_trades_step [of "state_at trs c k" trs date] by simp
    also have "\<dots> = apply_trades trs date (state_at trs c (Suc k))"
      by (simp add: state_at_def)
    also have "\<dots> = state_at trs c (Suc k + run_length trs date (Suc k))"
      using Suc.hyps(2) by (intro Suc.hyps(1)) simp
    finally show ?thesis using run_length_step [OF k True] by simp
  qed
qed

lemma state_after_consumed:
  "n \<le> length labels \<Longrightarrow> state_after trs labels c n = state_at trs c (consumed trs labels n)"
proof (induction n)
  case 0
  show ?case by (simp add: state_after_def state_at_def)
next
  case (Suc n)
  then have "take (Suc n) labels = take n labels @ [labels ! n]"
    by (simp add: take_Suc_conv_app_nth)
  then have "state_after trs labels c (Suc n)
               = apply_trades trs (labels ! n) (state_after trs labels c n)"
    by (simp add: state_after_def)
  then show ?case using Suc by (simp add: apply_trades_state_at)
qed

lemma equity_loop_points:
  "i \<le> length labels \<Longrightarrow>
   equity_loop trs prices labels i (state_at trs c (consumed trs labels i)) equity
     = equity @ map (point_at trs prices labels c) [i..<length labels]"
proof (induction "length labels - i" arbitrary: i equity)
  case 0
  then show ?case by (subst equity_loop.simps) simp
next
  case (Suc n)
  then have lt: "i < length labels" by simp
  have "equity_loop trs prices labels i (state_at trs c (consumed trs labels i)) equity
          = equity_loop trs prices labels (Suc i) (state_at trs c (consumed trs labels (Suc i)))
              (equity @ [point_at trs prices labels c i])"
    using lt
    by (subst equity_loop.simps) (simp add: Let_def apply_trades_state_at point_at_def)
  also have "\<dots> = (equity @ [point_at trs prices labels c i])
                      @ map (point_at trs prices labels c) [Suc i..<length labels]"
    using Suc.hyps(2) lt by (intro Suc.hyps(1)) simp_all
  finally show ?case using lt by (simp add: upt_conv_Cons)
qed

lemma computeEquityCurve_points:
  "computeEquityCurve trs prices labels c = map (point_at trs prices labels c) [0..<length labels]"
  using equity_loop_points [of 0 labels trs prices c "[]"]
  by (simp add: computeEquityCurve_def state_at_def)

lemma mark_price_cases:
  "mark_price prices i =
     (if i < length prices \<and> truthy (prices ! i) then prices ! i
      else if prices \<noteq> [] \<and> truthy (last prices) then last prices
      else Num 0)"
proof (cases "prices = []")
  case True
  then show ?thesis by (simp add: mark_price_def js_or_num_def js_or_def js_index_def)
next
  case False
  then have "nat (int (length prices) - 1) = length prices - 1" by simp
  then have "js_index prices (int (length prices) - 1) = Some (last prices)"
    using False by (simp add: js_index_def last_conv_nth)
  then show ?thesis using False
    by (simp add: mark_price_def js_or_num_def js_or_def js_index_def)
qed

section \<open>EquityReconstructor: logs that follow the labels\<close>

text \<open>
  On such a log the cursor takes, at each label, exactly the trades dated with it, so the
  source's curve is the curve of the specification.
\<close>

lemma foldl_record_last:
  "foldl (\<lambda>a t. (t_cash t, t_position t)) acct xs
     = (if xs = [] then acct else (t_cash (last xs), t_position (last xs)))"
  by (induction xs arbitrary: acct) simp_all

lemma accounts_by_timestamp_nth:
  "i < length labels \<Longrightarrow>
   accounts_by_timestamp trs labels acct ! i
     = foldl (\<lambda>a date. apply_matching trs date a) acct (take (Suc i) labels)"
proof (induction labels arbitrary: acct i)
  case Nil
  then show ?case by simp
next
  case (Cons d ds)
  then show ?case by (cases i) simp_all
qed

lemma takeWhile_none: "\<forall>t\<in>set ys. \<not> P t \<Longrightarrow> takeWhile P ys = []"
  by (cases ys) simp_all

lemma nth_middle_last:
  assumes "ys \<noteq> []"
  shows "(xs @ ys @ zs) ! (length xs + length ys - 1) = last ys"
proof -
  have "length xs + length ys - 1 = length xs + (length ys - 1)"
    using assms by (cases ys) simp_all
  then show ?thesis using assms by (simp add: nth_append last_conv_nth)
qed

lemma grouped_split:
  assumes "n < length groups"
  shows "concat groups = concat (take n groups) @ groups ! n @ concat (drop (Suc n) groups)"
proof -
  have "groups = take n groups @ groups ! n # drop (Suc n) groups"
    using assms by (rule id_take_nth_drop)
  then have "concat groups = concat (take n groups @ groups ! n # drop (Suc n) groups)"
    by simp
  then show ?thesis by simp
qed

lemma grouped_dates:
  assumes "distinct labels" and "length groups = length labels"
    and "\<forall>i<length labels. \<forall>t\<in>set (groups ! i). t_date t = Some (labels ! i)"
    and "n < length labels"
  shows "\<forall>t\<in>set (concat (take n groups)). t_date t \<noteq> Some (labels ! n)"
    and "\<forall>t\<in>set (concat (drop (Suc n) groups)). t_date t \<noteq> Some (labels ! n)"
proof -
  have other: "t_date t \<noteq> Some (labels ! n)"
    if "i < length labels" "i \<noteq> n" "t \<in> set (groups ! i)" for i t
  proof -
    have "t_date t = Some (labels ! i)" using assms(3) that(1,3) by blast
    moreover have "labels ! i \<noteq> labels ! n"
      using assms(1,4) that(1,2) by (simp add: nth_eq_iff_index_eq)
    ultimately show ?thesis by simp
  qed
  show "\<forall>t\<in>set (concat (take n groups)). t_date t \<noteq> Some (labels ! n)"
  proof
    fix t assume "t \<in> set (concat (take n groups))"
    then obtain g where "g \<in> set (take n groups)" "t \<in> set g" by auto
    then obtain i where "i < length (take n groups)" "take n groups ! i = g"
      by (auto simp: in_set_conv_nth)
    then have "i < n" "i < length labels" "groups ! i = g"
      using assms(2,4) by auto
    then show "t_date t \<noteq> Some (labels ! n)"
      using other [of i t] \<open>t \<in> set g\<close> by simp
  qed
  show "\<forall>t\<in>set (concat (drop (Suc n) groups)). t_date t \<noteq> Some (labels ! n)"
  proof
    fix t assume "t \<in> set (concat (drop (Suc n) groups))"
    then obtain g where "g \<in> set (drop (Suc n) groups)" "t \<in> set g" by auto
    then obtain i where "i < length (drop (Suc n) groups)" "drop (Suc n) groups ! i = g"
      by (auto simp: in_set_conv_nth)
    then have "Suc n + i < length labels" "groups ! (Suc n + i) = g"
      using assms(2) by auto
    then show "t_date t \<noteq> Some (labels ! n)"
      using other [of "Suc n + i" t] \<open>t \<in> set g\<close> by simp
  qed
qed

lemma follows_labels_step:
  assumes "distinct labels" and "length groups = length labels"
    and "\<forall>i<length labels. \<forall>t\<in>set (groups ! i). t_date t = Some (labels ! i)"
    and "n < length labels"
  shows "run_length (concat groups) (labels ! n) (length (concat (take n groups)))
           = length (groups ! n)"
    and "filter (\<lambda>t. t_date t = Some (labels ! n)) (concat groups) = groups ! n"
proof -
  let ?P = "\<lambda>t. t_date t = Some (labels ! n)"
  let ?pre = "concat (take n groups)" and ?post = "concat (drop (Suc n) groups)"
  have split: "concat groups = ?pre @ groups ! n @ ?post"
    using assms(2,4) by (intro grouped_split) simp
  have pre: "\<forall>t\<in>set ?pre. \<not> ?P t" and post: "\<forall>t\<in>set ?post. \<not> ?P t"
    using grouped_dates [OF assms] by simp_all
  have grp: "\<forall>t\<in>set (groups ! n). ?P t"
    using assms(3,4) by blast
  have "takeWhile ?P ?post = []"
    using post by (rule takeWhile_none)
  then have "takeWhile ?P (groups ! n @ ?post) = groups ! n"
    using grp by (simp add: takeWhile_append2)
  moreover have "drop (length ?pre) (concat groups) = groups ! n @ ?post"
    by (subst split) simp
  ultimately show "run_length (concat groups) (labels ! n) (length ?pre) = length (groups ! n)"
    by (simp add: run_length_def)
  have "filter ?P ?pre = []" "filter ?P ?post = []" "filter ?P (groups ! n) = groups ! n"
    using pre post grp by (simp_all add: filter_empty_conv)
  then show "filter ?P (concat groups) = groups ! n"
    by (subst split) simp
qed

lemma follows_labels_accounts:
  assumes "distinct labels" and "length groups = length labels"
    and "\<forall>i<length labels. \<forall>t\<in>set (groups ! i). t_date t = Some (labels ! i)"
  shows "n \<le> length labels \<Longrightarrow>
         consumed (concat groups) labels n = length (concat (take n groups)) \<and>
         foldl (\<lambda>a date. apply_matching (concat groups) date a) (c, Num 0) (take n labels)
           = (eq_cash (state_at (concat groups) c (consumed (concat groups) labels n)),
              eq_position (state_at (concat groups) c (consumed (concat groups) labels n)))"
proof (induction n)
  case 0
  show ?case by (simp add: state_at_def)
next
  case (Suc n)
  let ?trs = "concat groups"
  let ?k = "length (concat (take n groups))"
  have n: "n < length labels" using Suc.prems by simp
  have IH: "consumed ?trs labels n = ?k"
    "foldl (\<lambda>a date. apply_matching ?trs date a) (c, Num 0) (take n labels)
       = (eq_cash (state_at ?trs c ?k), eq_position (state_at ?trs c ?k))"
    using Suc.IH n by simp_all
  have run: "run_length ?trs (labels ! n) ?k = length (groups ! n)"
    and flt: "filter (\<lambda>t. t_date t = Some (labels ! n)) ?trs = groups ! n"
    using follows_labels_step [OF assms n] by simp_all
  have take_Suc: "concat (take (Suc n) groups) = concat (take n groups) @ groups ! n"
    using n assms(2) by (simp add: take_Suc_conv_app_nth)
  have cons: "consumed ?trs labels (Suc n) = length (concat (take (Suc n) groups))"
    using IH(1) run take_Suc by simp
  have split: "?trs = concat (take n groups) @ groups ! n @ concat (drop (Suc n) groups)"
    using n assms(2) by (intro grouped_split) simp
  have acct: "apply_matching ?trs (labels ! n) (eq_cash (state_at ?trs c ?k), eq_position (state_at ?trs c ?k))
                = (eq_cash (state_at ?trs c (?k + length (groups ! n))),
                   eq_position (state_at ?trs c (?k + length (groups ! n))))"
  proof (cases "groups ! n = []")
    case True
    then show ?thesis by (simp add: apply_matching_def flt)
  next
    case False
    then have len: "0 < length (groups ! n)" by simp
    have "(concat (take n groups) @ groups ! n @ concat (drop (Suc n) groups))
            ! (?k + length (groups ! n) - 1) = last (groups ! n)"
      using False by (rule nth_middle_last)
    then have "?trs ! (?k + length (groups ! n) - 1) = last (groups ! n)"
      using split by simp
    then show ?thesis
      using False len by (simp add: apply_matching_def flt foldl_record_last state_at_def)
  qed
  have "foldl (\<lambda>a date. apply_matching ?trs date a) (c, Num 0) (take (Suc n) labels)
          = apply_matching ?trs (labels ! n)
              (foldl (\<lambda>a date. apply_matching ?trs date a) (c, Num 0) (take n labels))"
    using n by (simp add: take_Suc_conv_app_nth)
  then have "foldl (\<lambda>a date. apply_matching ?trs date a) (c, Num 0) (take (Suc n) labels)
          = (eq_cash (state_at ?trs c (consumed ?trs labels (Suc n))),
             eq_position (state_at ?trs c (consumed ?trs labels (Suc n))))"
    using IH acct run by simp
  then show ?case using cons by blast
qed

lemma follows_labels_curve:
  assumes "log_follows_labels trs labels"
  shows "computeEquityCurve trs prices labels c = equity_by_timestamp trs prices labels c"
proof -
  obtain groups where g: "distinct labels" "trs = concat groups" "length groups = length labels"
      "\<forall>i<length labels. \<forall>t\<in>set (groups ! i). t_date t = Some (labels ! i)"
    using assms unfolding log_follows_labels_def by blast
  have "point_at trs prices labels c i
          = \<lparr>e_date = labels ! i,
             e_total = js_add (fst (accounts_by_timestamp trs labels (c, Num 0) ! i))
                         (js_mul (snd (accounts_by_timestamp trs labels (c, Num 0) ! i))
                            (mark_price prices i))\<rparr>"
    if "i < length labels" for i
  proof -
    have "accounts_by_timestamp trs labels (c, Num 0) ! i
            = (eq_cash (state_at trs c (consumed trs labels (Suc i))),
               eq_position (state_at trs c (consumed trs labels (Suc i))))"
      using follows_labels_accounts [OF g(1,3,4), of "Suc i" c] that
      unfolding g(2) by (simp add: accounts_by_timestamp_nth del: consumed.simps)
    then show ?thesis by (simp add: point_at_def Let_def del: consumed.simps)
  qed
  then show ?thesis
    by (simp add: computeEquityCurve_points equity_by_timestamp_def)
qed

section \<open>EquityReconstructor: the curve point by point\<close>

text \<open>
  C3, as stated, at a concrete input: the second trade of the log carries the timestamp of
  the second point, but the cursor is held by the first trade, whose timestamp is no label;
  the source values the point at \<open>100\<close>, applying every trade with that timestamp gives
  \<open>110\<close>.
\<close>

theorem equity_all_matching_counterexample:
  "computeEquityCurve
     [\<lparr>t_type = Buy, t_date = Some ''d0'', t_price = Num 10, t_qty = Num 5, t_fee = Num 0,
       t_cash = Num 50, t_position = Num 5\<rparr>,
      \<lparr>t_type = Sell, t_date = Some ''d2'', t_price = Num 12, t_qty = Num 5, t_fee = Num 0,
       t_cash = Num 110, t_position = Num 0\<rparr>]
     [Num 10, Num 12] [''d1'', ''d2''] (Num 100)
     = [\<lparr>e_date = ''d1'', e_total = Num 100\<rparr>, \<lparr>e_date = ''d2'', e_total = Num 100\<rparr>] \<and>
   equity_by_timestamp
     [\<lparr>t_type = Buy, t_date = Some ''d0'', t_price = Num 10, t_qty = Num 5, t_fee = Num 0,
       t_cash = Num 50, t_position = Num 5\<rparr>,
      \<lparr>t_type = Sell, t_date = Some ''d2'', t_price = Num 12, t_qty = Num 5, t_fee = Num 0,
       t_cash = Num 110, t_position = Num 0\<rparr>]
     [Num 10, Num 12] [''d1'', ''d2''] (Num 100)
     = [\<lparr>e_date = ''d1'', e_total = Num 100\<rparr>, \<lparr>e_date = ''d2'', e_total = Num 110\<rparr>] \<and>
   computeEquityCurve
     [\<lparr>t_type = Buy, t_date = Some ''d0'', t_price = Num 10, t_qty = Num 5, t_fee = Num 0,
       t_cash = Num 50, t_position = Num 5\<rparr>,
      \<lparr>t_type = Sell, t_date = Some ''d2'', t_price = Num 12, t_qty = Num 5, t_fee = Num 0,
       t_cash = Num 110, t_position = Num 0\<rparr>]
     [Num 10, Num 12] [''d1'', ''d2''] (Num 100)
     \<noteq> equity_by_timestamp
     [\<lparr>t_type = Buy, t_date = Some ''d0'', t_price = Num 10, t_qty = Num 5, t_fee = Num 0,
       t_cash = Num 50, t_position = Num 5\<rparr>,
      \<lparr>t_type = Sell, t_date = Some ''d2'', t_price = Num 12, t_qty = Num 5, t_fee = Num 0,
       t_cash = Num 110, t_position = Num 0\<rparr>]
     [Num 10, Num 12] [''d1'', ''d2''] (Num 100)"
  by (simp add: computeEquityCurve_def equity_loop.simps apply_trades.simps Let_def
                equity_by_timestamp_def apply_matching_def mark_price_def js_or_def js_or_num_def
                js_index_def upt_rec)

text \<open>
  C3, amended: the curve has one point per label, in label order (as many as there are prices
  when the two arrays are aligned); point \<open>i\<close> carries label \<open>i\<close> and the total
  \<open>cash + position * price\<close>, where cash and position are those of the state the source's
  inner loop reaches after labels \<open>0..i\<close>, which is what the last trade taken by the cursor
  recorded (the starting cash and no position while none is taken), and the price is
  \<open>prices[i]\<close> unless that is missing, zero or \<open>NaN\<close>, then the last price of the series
  unless that is so too, then \<open>0\<close>. On a trade log that follows the labels, this is the
  curve obtained by applying, at each timestamp, all trades whose timestamp equals it.
\<close>

theorem equity_curve_cursor:
  "length (computeEquityCurve trs prices labels c) = length labels \<and>
   (length prices = length labels \<longrightarrow>
      length (computeEquityCurve trs prices labels c) = length prices) \<and>
   (\<forall>i<length labels.
      computeEquityCurve trs prices labels c ! i
        = \<lparr>e_date = labels ! i,
           e_total = js_add (eq_cash (state_at trs c (consumed trs labels (Suc i))))
                       (js_mul (eq_position (state_at trs c (consumed trs labels (Suc i))))
                          (mark_price prices i))\<rparr> \<and>
      state_at trs c (consumed trs labels (Suc i)) = state_after trs labels c (Suc i) \<and>
      mark_price prices i =
        (if i < length prices \<and> truthy (prices ! i) then prices ! i
         else if prices \<noteq> [] \<and> truthy (last prices) then last prices
         else Num 0)) \<and>
   (log_follows_labels trs labels \<longrightarrow>
      computeEquityCurve trs prices labels c = equity_by_timestamp trs prices labels c)"
proof -
  have "computeEquityCurve trs prices labels c ! i
        = \<lparr>e_date = labels ! i,
           e_total = js_add (eq_cash (state_at trs c (consumed trs labels (Suc i))))
                       (js_mul (eq_position (state_at trs c (consumed trs labels (Suc i))))
                          (mark_price prices i))\<rparr>"
    if "i < length labels" for i
    using that by (simp add: computeEquityCurve_points point_at_def Let_def)
  moreover have "state_at trs c (consumed trs labels (Suc i)) = state_after trs labels c (Suc i)"
    if "i < length labels" for i
    using that state_after_consumed [of "Suc i" labels trs c] by simp
  moreover have "length (computeEquityCurve trs prices labels c) = length labels"
    by (simp add: computeEquityCurve_points)
  ultimately show ?thesis
    using mark_price_cases follows_labels_curve by presburger
qed

theorem equity_curve_cursor_witness:
  "computeEquityCurve
     [\<lparr>t_type = Buy, t_date = Some ''d2'', t_price = Num 10, t_qty = Num 5, t_fee = Num 0,
       t_cash = Num 50, t_position = Num 5\<rparr>]
     [Num 10, Num 0, Num 12] [''d1'', ''d2'', ''d3''] (Num 100) ! 1
     = \<lparr>e_date = ''d2'', e_total = Num 110\<rparr> \<and>
   computeEquityCurve
     [\<lparr>t_type = Buy, t_date = Some ''d2'', t_price = Num 10, t_qty = Num 5, t_fee = Num 0,
       t_cash = Num 50, t_position = Num 5\<rparr>]
     [Num 10, Num 0, Num 12] [''d1'', ''d2'', ''d3''] (Num 100)
     = equity_by_timestamp
     [\<lparr>t_type = Buy, t_date = Some ''d2'', t_price = Num 10, t_qty = Num 5, t_fee = Num 0,
       t_cash = Num 50, t_position = Num 5\<rparr>]
     [Num 10, Num 0, Num 12] [''d1'', ''d2'', ''d3''] (Num 100)"
proof -
  let ?t = "\<lparr>t_type = Buy, t_date = Some ''d2'', t_price = Num 10, t_qty = Num 5, t_fee = Num 0,
             t_cash = Num 50, t_position = Num 5\<rparr>"
  have "[?t] = concat [[], [?t], []] \<and> length [[], [?t], []] = length [''d1'', ''d2'', ''d3''] \<and>
        (\<forall>i<length [''d1'', ''d2'', ''d3''].
           \<forall>t\<in>set ([[], [?t], []] ! i). t_date t = Some ([''d1'', ''d2'', ''d3''] ! i))"
    by (simp add: less_Suc_eq numeral_3_eq_3)
  then have follows: "log_follows_labels [?t] [''d1'', ''d2'', ''d3'']"
    unfolding log_follows_labels_def by (intro conjI exI [of _ "[[], [?t], []]"]) simp_all
  note curve = equity_curve_cursor [of "[?t]" "[Num 10, Num 0, Num 12]" "[''d1'', ''d2'', ''d3'']" "Num 100"]
  have point: "computeEquityCurve [?t] [Num 10, Num 0, Num 12] [''d1'', ''d2'', ''d3''] (Num 100) ! 1
                 = \<lparr>e_date = ''d2'', e_total = Num 110\<rparr>"
    using curve by (simp add: state_at_def run_length_def numeral_2_eq_2)
  have "computeEquityCurve [?t] [Num 10, Num 0, Num 12] [''d1'', ''d2'', ''d3''] (Num 100)
          = equity_by_timestamp [?t] [Num 10, Num 0, Num 12] [''d1'', ''d2'', ''d3''] (Num 100)"
    using curve follows by blast
  then show ?thesis using point by blast
qed

section \<open>EquityReconstructor: a trade that holds the cursor\<close>

lemma apply_trades_cursor:
  "tradeIndex (apply_trades trs date st) = tradeIndex st + run_length trs date (tradeIndex st)"
proof (induction "length trs - tradeIndex st" arbitrary: st)
  case 0
  then have stop: "\<not> (tradeIndex st < length trs \<and> t_date (trs ! tradeIndex st) = Some date)"
    by simp
  show ?case using apply_trades_stop [OF stop] run_length_stop [OF stop] by simp
next
  case (Suc n)
  show ?case
  proof (cases "tradeIndex st < length trs \<and> t_date (trs ! tradeIndex st) = Some date")
    case False
    show ?thesis using apply_trades_stop [OF False] run_length_stop [OF False] by simp
  next
    case True
    let ?st = "\<lparr>eq_cash = t_cash (trs ! tradeIndex st), eq_position = t_position (trs ! tradeIndex st),
                tradeIndex = Suc (tradeIndex st)\<rparr>"
    have "tradeIndex (apply_trades trs date ?st) = tradeIndex ?st + run_length trs date (tradeIndex ?st)"
      using Suc.hyps(2) by (intro Suc.hyps(1)) simp
    then show ?thesis
      using True apply_trades_step [of st trs date] run_length_step [of "tradeIndex st" trs date]
      by simp
  qed
qed

lemma consumed_mono: "n \<le> m \<Longrightarrow> consumed trs labels n \<le> consumed trs labels m"
  by (induction m) (auto simp: le_Suc_eq)

lemma consumed_bound: "consumed trs labels n \<le> length trs"
proof (induction n)
  case 0
  show ?case by simp
next
  case (Suc n)
  then show ?case
    using run_length_bound [of "consumed trs labels n" trs "labels ! n"] by simp
qed

lemma run_length_prefix:
  assumes "k \<le> length pre"
    and "t_date t \<noteq> Some date \<or> k + run_length (pre @ t # post) date k \<le> length pre"
  shows "run_length (pre @ t # post) date k = run_length pre date k"
proof -
  let ?P = "\<lambda>t. t_date t = Some date"
  have dr: "drop k (pre @ t # post) = drop k pre @ t # post"
    using assms(1) by simp
  show ?thesis
  proof (cases "\<forall>x\<in>set (drop k pre). ?P x")
    case False
    then obtain x where "x \<in> set (drop k pre)" "\<not> ?P x" by blast
    then have "takeWhile ?P (drop k pre @ t # post) = takeWhile ?P (drop k pre)"
      by (rule takeWhile_append1)
    then show ?thesis unfolding run_length_def dr by simp
  next
    case True
    then have tw: "takeWhile ?P (drop k pre @ t # post) = drop k pre @ takeWhile ?P (t # post)"
      by (intro takeWhile_append2) simp
    have nt: "\<not> ?P t"
    proof
      assume "?P t"
      then have "run_length (pre @ t # post) date k \<ge> length pre - k + 1"
        unfolding run_length_def dr tw by simp
      then show False using assms \<open>?P t\<close> by simp
    qed
    have all: "takeWhile ?P (drop k pre) = drop k pre"
      using True by (simp add: takeWhile_eq_all_conv)
    have "takeWhile ?P (drop k pre @ t # post) = drop k pre"
      using tw nt by simp
    then show ?thesis unfolding run_length_def dr all by simp
  qed
qed

lemma state_at_prefix:
  "k \<le> length pre \<Longrightarrow> state_at (pre @ t # post) c k = state_at pre c k"
  by (cases k) (simp_all add: state_at_def nth_append)

lemma consumed_blocked:
  assumes "j \<le> length labels"
    and at: "consumed (pre @ t # post) labels j = length pre"
    and miss: "\<forall>i. j \<le> i \<and> i < length labels \<longrightarrow> t_date t \<noteq> Some (labels ! i)"
  shows "n \<le> length labels \<Longrightarrow> consumed (pre @ t # post) labels n = consumed pre labels n"
proof (induction n)
  case 0
  show ?case by simp
next
  case (Suc n)
  let ?full = "pre @ t # post"
  have IH: "consumed ?full labels n = consumed pre labels n"
    using Suc by simp
  have k: "consumed ?full labels n \<le> length pre"
    using IH consumed_bound [of pre labels n] by simp
  have "t_date t \<noteq> Some (labels ! n) \<or>
        consumed ?full labels n + run_length ?full (labels ! n) (consumed ?full labels n) \<le> length pre"
  proof (cases "n < j")
    case True
    then have "consumed ?full labels (Suc n) \<le> consumed ?full labels j"
      by (intro consumed_mono) simp
    then show ?thesis using at by simp
  next
    case False
    then show ?thesis using miss Suc.prems by simp
  qed
  then have "run_length ?full (labels ! n) (consumed ?full labels n)
               = run_length pre (labels ! n) (consumed ?full labels n)"
    by (rule run_length_prefix [OF k])
  then show ?case using IH by simp
qed

text \<open>
  C10: the inner loop moves the cursor over exactly the consecutive trades, from the cursor
  on, whose date is the current label. So when the cursor stands on a trade \<open>t\<close> before
  label \<open>j\<close> and no label from \<open>j\<close> on equals the date of \<open>t\<close>, the cursor stays on \<open>t\<close>
  to the end, and the curve is the one of the log cut before \<open>t\<close>: neither \<open>t\<close> nor any
  trade behind it is applied, whatever their dates.
\<close>

theorem blocked_trade_stops_cursor:
  assumes "j \<le> length labels"
    and "tradeIndex (state_after (pre @ t # post) labels c j) = length pre"
    and "\<forall>i. j \<le> i \<and> i < length labels \<longrightarrow> t_date t \<noteq> Some (labels ! i)"
  shows "(\<forall>st date. tradeIndex (apply_trades (pre @ t # post) date st)
            = tradeIndex st + length (takeWhile (\<lambda>x. t_date x = Some date)
                                        (drop (tradeIndex st) (pre @ t # post)))) \<and>
         (\<forall>i. j \<le> i \<and> i \<le> length labels \<longrightarrow>
            tradeIndex (state_after (pre @ t # post) labels c i) = length pre) \<and>
         computeEquityCurve (pre @ t # post) prices labels c
           = computeEquityCurve pre prices labels c"
proof -
  let ?full = "pre @ t # post"
  have at: "consumed ?full labels j = length pre"
    using assms(1,2) by (simp add: state_after_consumed)
  have same: "consumed ?full labels n = consumed pre labels n" if "n \<le> length labels" for n
    using consumed_blocked [OF assms(1) at assms(3) that] .
  have stay: "tradeIndex (state_after ?full labels c i) = length pre"
    if "j \<le> i" and "i \<le> length labels" for i
  proof -
    have "consumed ?full labels j \<le> consumed ?full labels i"
      using that(1) by (rule consumed_mono)
    moreover have "consumed ?full labels i \<le> length pre"
      using same [OF that(2)] consumed_bound [of pre labels i] by simp
    ultimately show ?thesis using at that(2) by (simp add: state_after_consumed)
  qed
  have "point_at ?full prices labels c i = point_at pre prices labels c i"
    if "i < length labels" for i
  proof -
    have "consumed ?full labels (Suc i) = consumed pre labels (Suc i)"
      using that by (intro same) simp
    moreover have "consumed pre labels (Suc i) \<le> length pre"
      by (rule consumed_bound)
    ultimately show ?thesis
      using state_at_prefix [of "consumed pre labels (Suc i)" pre t post c]
      by (simp add: point_at_def del: consumed.simps)
  qed
  then have "computeEquityCurve ?full prices labels c = computeEquityCurve pre prices labels c"
    by (simp add: computeEquityCurve_points)
  then show ?thesis
    using stay apply_trades_cursor [of ?full] unfolding run_length_def by blast
qed

theorem blocked_trade_stops_cursor_witness:
  "computeEquityCurve
     ([] @ \<lparr>t_type = Buy, t_date = Some ''d0'', t_price = Num 10, t_qty = Num 5, t_fee = Num 0,
            t_cash = Num 50, t_position = Num 5\<rparr> #
      [\<lparr>t_type = Sell, t_date = Some ''d2'', t_price = Num 12, t_qty = Num 5, t_fee = Num 0,
        t_cash = Num 110, t_position = Num 0\<rparr>])
     [Num 10, Num 12] [''d1'', ''d2''] (Num 100)
   = [\<lparr>e_date = ''d1'', e_total = Num 100\<rparr>, \<lparr>e_date = ''d2'', e_total = Num 100\<rparr>]"
proof -
  have "computeEquityCurve [] [Num 10, Num 12] [''d1'', ''d2''] (Num 100)
          = [\<lparr>e_date = ''d1'', e_total = Num 100\<rparr>, \<lparr>e_date = ''d2'', e_total = Num 100\<rparr>]"
    by (simp add: computeEquityCurve_def equity_loop.simps apply_trades.simps Let_def
                  mark_price_def js_or_def js_or_num_def js_index_def)
  then show ?thesis
    using blocked_trade_stops_cursor [of 0 "[''d1'', ''d2'']" "[]"
      "\<lparr>t_type = Buy, t_date = Some ''d0'', t_price = Num 10, t_qty = Num 5, t_fee = Num 0,
        t_cash = Num 50, t_position = Num 5\<rparr>"
      "[\<lparr>t_type = Sell, t_date = Some ''d2'', t_price = Num 12, t_qty = Num 5, t_fee = Num 0,
         t_cash = Num 110, t_position = Num 0\<rparr>]" "Num 100" "[Num 10, Num 12]"]
    by (simp add: state_after_def less_Suc_eq)
qed

section \<open>SignalGenerator: crossings and the truthiness guard\<close>

text \<open>
  Where no defined average is zero or \<open>NaN\<close>, as with positive finite prices, the loop emits
  exactly the crossings.
\<close>

lemma signals_loop_crossing:
  assumes "\<forall>k<length prices. nonzero_opt (js_get fastS k) \<and> nonzero_opt (js_get slowS k)"
  shows "signals_loop labels prices fastS slowS i signals
           = signals @ concat (map (\<lambda>i. case crossing fastS slowS i of
                        Some k \<Rightarrow> [\<lparr>s_type = k, s_idx = i, s_price = prices ! i,
                                     s_date = js_index labels (int i)\<rparr>]
                      | None \<Rightarrow> [])
               [i..<length prices])"
proof (induction "length prices - i" arbitrary: i signals)
  case 0
  then show ?case by (subst signals_loop.simps) simp
next
  case (Suc n)
  then have lt: "i < length prices" by simp
  let ?emit = "\<lambda>i. case crossing fastS slowS i of
                        Some k \<Rightarrow> [\<lparr>s_type = k, s_idx = i, s_price = prices ! i,
                                     s_date = js_index labels (int i)\<rparr>]
                      | None \<Rightarrow> []"
  have nz: "nonzero_opt (js_get fastS (i - 1))" "nonzero_opt (js_get slowS (i - 1))"
           "nonzero_opt (js_get fastS i)" "nonzero_opt (js_get slowS i)"
    using assms lt by (simp_all add: less_imp_diff_less)
  have step: "signals_loop labels prices fastS slowS i signals
                = signals_loop labels prices fastS slowS (i + 1) (signals @ ?emit i)"
    using lt nz
    by (subst signals_loop.simps)
       (auto simp: crossing_def nonzero_opt_def split: option.splits)
  have "signals_loop labels prices fastS slowS (i + 1) (signals @ ?emit i)
          = (signals @ ?emit i) @ concat (map ?emit [i + 1..<length prices])"
    using Suc.hyps(2) by (intro Suc.hyps(1)) simp
  then show ?case using step lt by (simp add: upt_conv_Cons)
qed

lemma window_sum_pos:
  assumes "\<forall>p\<in>set ps. 0 < p" and "0 < w" and "0 < n" and "n \<le> length ps"
  shows "0 < window_sum ps w n"
  unfolding window_sum_def
proof (rule sum_pos)
  show "finite {n - w..<n}" by simp
  show "{n - w..<n} \<noteq> {}" using assms(2,3) by simp
  show "0 < ps ! j" if "j \<in> {n - w..<n}" for j
    using that assms(1,4) by simp
qed

lemma sma_positive_nonzero:
  assumes "\<forall>p\<in>set ps. 0 < p" and "0 < w" and "k < length ps"
  shows "nonzero_opt (js_get (sma (map Num ps) w) k)"
proof -
  have "0 < window_sum ps w (k + 1)"
    using assms by (intro window_sum_pos) simp_all
  then show ?thesis
    using assms(2,3) by (simp add: sma_finite js_get_def sma_at_def nonzero_opt_def)
qed

lemma signals_at_positive_prices:
  assumes "\<forall>p\<in>set ps. 0 < p" and "1 \<le> fast" and "1 \<le> slow"
  shows "generateSmaSignals labels (map Num ps) fast slow
           = crossing_signals labels (map Num ps) fast slow"
proof -
  have "\<forall>k<length (map Num ps).
          nonzero_opt (js_get (sma (map Num ps) fast) k) \<and>
          nonzero_opt (js_get (sma (map Num ps) slow) k)"
    using assms by (simp add: sma_positive_nonzero)
  then show ?thesis
    unfolding generateSmaSignals_def crossing_signals_def
    by (subst signals_loop_crossing) simp_all
qed

text \<open>
  C1 at the prices \<open>1, 0, 1\<close> with windows \<open>1\<close> and \<open>2\<close>: both averages are defined at
  indices \<open>1\<close> and \<open>2\<close>, the fast one goes from \<open>0 \<le> 0.5\<close> to \<open>1 > 0.5\<close>, so the rule
  gives a Buy at index \<open>2\<close>; the source emits nothing, because the fast average \<open>0\<close> at
  index \<open>1\<close> is falsy.
\<close>

theorem zero_average_suppresses_signal:
  "sma [Num 1, Num 0, Num 1] 1 = [Some (Num 1), Some (Num 0), Some (Num 1)] \<and>
   sma [Num 1, Num 0, Num 1] 2 = [None, Some (Num (1/2)), Some (Num (1/2))] \<and>
   crossing_signals [''a'', ''b'', ''c''] [Num 1, Num 0, Num 1] 1 2
     = [\<lparr>s_type = Buy, s_idx = 2, s_price = Num 1, s_date = Some ''c''\<rparr>] \<and>
   generateSmaSignals [''a'', ''b'', ''c''] [Num 1, Num 0, Num 1] 1 2 = []"
proof -
  have f: "sma [Num 1, Num 0, Num 1] 1 = [Some (Num 1), Some (Num 0), Some (Num 1)]"
    by (simp add: sma_def sma_loop.simps Let_def js_sub_def)
  have s: "sma [Num 1, Num 0, Num 1] 2 = [None, Some (Num (1/2)), Some (Num (1/2))]"
    by (simp add: sma_def sma_loop.simps Let_def js_sub_def)
  have f0: "sma [Num 1, Num 0, Num 1] (Suc 0) = [Some (Num 1), Some (Num 0), Some (Num 1)]"
    using f by simp
  have "[1..<3] = [1, 2::nat]"
    by (simp add: upt_rec)
  then have c: "crossing_signals [''a'', ''b'', ''c''] [Num 1, Num 0, Num 1] 1 2
     = [\<lparr>s_type = Buy, s_idx = 2, s_price = Num 1, s_date = Some ''c''\<rparr>]"
    by (simp add: crossing_signals_def f0 s crossing_def js_get_def js_index_def js_gt_def js_ge_def)
  have g: "generateSmaSignals [''a'', ''b'', ''c''] [Num 1, Num 0, Num 1] 1 2 = []"
    by (simp add: generateSmaSignals_def f0 s signals_loop.simps js_get_def js_index_def
                  js_gt_def js_ge_def)
  show ?thesis using f s c g by blast
qed

section \<open>PortfolioSimulator: the final mark price\<close>








section \<open>PerformanceAnalyzer: degenerate inputs\<close>









section \<open>PortfolioSimulator: a Buy signal at price zero\<close>

text \<open>
  C5 at the prices \<open>10, 1, 3, 0\<close> with windows \<open>2\<close> and \<open>3\<close>, starting cash \<open>100\<close> and the
  default rates: the generator emits a Buy at index \<open>3\<close>, where the price is \<open>0\<close>; the
  quantity is \<open>floor(50 / 0)\<close>, the position becomes infinite and cash \<open>NaN\<close>.
\<close>

theorem zero_price_buy_account:
  "generateSmaSignals [''a'', ''b'', ''c'', ''d''] [Num 10, Num 1, Num 3, Num 0] 2 3
     = [\<lparr>s_type = Buy, s_idx = 3, s_price = Num 0, s_date = Some ''d''\<rparr>] \<and>
   finalCash (simulatePortfolio
       (generateSmaSignals [''a'', ''b'', ''c'', ''d''] [Num 10, Num 1, Num 3, Num 0] 2 3)
       [Num 10, Num 1, Num 3, Num 0] [''a'', ''b'', ''c'', ''d'']
       (Num 100) (Num (1/1000)) (Num (5/10000))) = NaN \<and>
   finalPosition (simulatePortfolio
       (generateSmaSignals [''a'', ''b'', ''c'', ''d''] [Num 10, Num 1, Num 3, Num 0] 2 3)
       [Num 10, Num 1, Num 3, Num 0] [''a'', ''b'', ''c'', ''d'']
       (Num 100) (Num (1/1000)) (Num (5/10000))) = PosInf"
proof -
  have sig: "generateSmaSignals [''a'', ''b'', ''c'', ''d''] [Num 10, Num 1, Num 3, Num 0] 2 3
     = [\<lparr>s_type = Buy, s_idx = 3, s_price = Num 0, s_date = Some ''d''\<rparr>]"
    by (simp add: generateSmaSignals_def sma_def sma_loop.simps signals_loop.simps Let_def
                  js_sub_def js_get_def js_index_def js_gt_def js_ge_def)
  show ?thesis
    unfolding sig
    by (simp add: simulatePortfolio_def init_state_def sim_step_def Let_def js_gt_def js_min_def
                  js_sub_def signed_inf_def)
qed

text \<open>
  C8 after a Buy signal at price \<open>0\<close> followed by a Sell signal: both trades are recorded;
  cash after the Buy is \<open>NaN\<close>, which is not below the \<open>100\<close> before it, and the position
  after the Sell is \<open>NaN\<close>, not \<open>0\<close>.
\<close>

theorem zero_price_buy_trades:
  "tradeLog (simulatePortfolio
       [\<lparr>s_type = Buy, s_idx = 1, s_price = Num 0, s_date = Some ''b''\<rparr>,
        \<lparr>s_type = Sell, s_idx = 2, s_price = Num 5, s_date = Some ''c''\<rparr>]
       [Num 1, Num 0, Num 5] [''a'', ''b'', ''c'']
       (Num 100) (Num (1/1000)) (Num (5/10000)))
     = [\<lparr>t_type = Buy, t_date = Some ''b'', t_price = Num 0, t_qty = PosInf, t_fee = Num 0,
         t_cash = NaN, t_position = PosInf\<rparr>,
        \<lparr>t_type = Sell, t_date = Some ''c'', t_price = Num (999/200), t_qty = PosInf,
         t_fee = Num (999/400000), t_cash = NaN, t_position = NaN\<rparr>]"
  by (simp add: simulatePortfolio_def init_state_def sim_step_def Let_def js_gt_def js_min_def
                js_sub_def signed_inf_def)

end
